theory Spec2Isabelle
  imports Complex_Main "HOL-Library.Word" "HOL-Library.Sublist"
begin

section \<open>JavaScript values used by the client\<close>

text \<open>
  A JavaScript string is a sequence of UTF-16 code units; \<open>s.length\<close> counts code
  units and \<open>===\<close> compares them one by one. String literals of the source are
  written with \<open>js\<close>.
\<close>

type_synonym code_unit = "16 word"
type_synonym jsstring = "code_unit list"

definition js :: "string \<Rightarrow> jsstring" where
  "js s = map (\<lambda>c. word_of_nat (of_char c)) s"

text \<open>
  \<open>String.prototype.includes(search)\<close>: true when \<open>search\<close> occurs somewhere in the
  string as a contiguous run of code units (the search starts at position 0).
\<close>

fun js_includes :: "jsstring \<Rightarrow> jsstring \<Rightarrow> bool" where
  "js_includes [] search = (search = [])"
| "js_includes (c # cs) search = (prefix search (c # cs) \<or> js_includes cs search)"

text \<open>\<open>String.prototype.endsWith(search)\<close>, the suffix test the specification speaks of.\<close>

definition endsWith :: "jsstring \<Rightarrow> jsstring \<Rightarrow> bool" where
  "endsWith s search = suffix search s"

text \<open>
  A string is truthy when it is not empty; \<open>null\<close> and \<open>undefined\<close> are falsy. An
  optional string is an \<open>option\<close>, and a truthiness test is a case on it.
\<close>

text \<open>
  A promise settles once: it is fulfilled with a value or rejected with a cause
  (kept here as the string that \<open>String(e)\<close> gives).
\<close>

datatype 'a settled = Fulfilled 'a | Rejected jsstring

section \<open>The network bridge loader (TauriHlsLoader.ts)\<close>

text \<open>
  \<open>LoaderStats\<close> of hls.js with the nested \<open>loading\<close>, \<open>parsing\<close> and \<open>buffering\<close>
  objects flattened into fields. The times are values of \<open>performance.now()\<close>; the
  loader only stores them and tests \<open>loading.first\<close> for falsiness (zero).
\<close>

record LoaderStats =
  aborted :: bool
  loaded :: nat
  retry :: nat
  total :: nat
  chunkCount :: nat
  bwEstimate :: nat
  loading_start :: real
  loading_first :: real
  loading_end :: real
  parsing_start :: real
  parsing_end :: real
  buffering_start :: real
  buffering_first :: real
  buffering_end :: real

record LoaderContext =
  url :: jsstring

text \<open>
  The callbacks object handed to \<open>load\<close>: \<open>onSuccess\<close> and \<open>onError\<close> are always
  there, \<open>onAbort\<close> is optional. The object is identified by a handle so that a
  trace tells which registration was called.
\<close>

record LoaderCallbacks =
  handle :: nat
  has_onAbort :: bool

datatype payload = Text jsstring | Bytes "8 word list"

record LoaderResponse =
  response_url :: jsstring
  response_data :: payload

text \<open>The two bridge commands, with the \<open>url\<close> argument of the call.\<close>

datatype bridge_call = Fetch_m3u8 jsstring | Fetch_bytes jsstring

text \<open>What the loader does to the outside: bridge calls it issues and callbacks it calls.\<close>

datatype effect =
    Invoke bridge_call
  | OnSuccess LoaderCallbacks LoaderResponse LoaderStats LoaderContext
  | OnError LoaderCallbacks jsstring LoaderContext LoaderStats
  | OnAbort LoaderCallbacks LoaderStats LoaderContext

text \<open>
  The instance fields. \<open>context\<close> is declared without an initial value
  (\<open>context!\<close>), so it is absent until the first \<open>load\<close>.
\<close>

record TauriHlsLoader =
  loader_context :: "LoaderContext option"
  stats :: LoaderStats
  callbacks :: "LoaderCallbacks option"
  destroyed :: bool

definition new_stats :: LoaderStats where
  "new_stats = \<lparr> aborted = False, loaded = 0, retry = 0, total = 0, chunkCount = 0,
     bwEstimate = 0, loading_start = 0, loading_first = 0, loading_end = 0,
     parsing_start = 0, parsing_end = 0,
     buffering_start = 0, buffering_first = 0, buffering_end = 0 \<rparr>"

definition new_loader :: TauriHlsLoader where
  "new_loader = \<lparr> loader_context = None, stats = new_stats, callbacks = None,
     destroyed = False \<rparr>"

definition destroy :: "TauriHlsLoader \<Rightarrow> TauriHlsLoader" where
  "destroy l = l\<lparr> destroyed := True, callbacks := None \<rparr>"

text \<open>
  \<open>abort()\<close> sets the flag and calls \<open>onAbort\<close> when callbacks are registered and
  have one. Before the first \<open>load\<close> no callbacks are registered, so the absent
  context is never passed on.
\<close>

definition abort :: "TauriHlsLoader \<Rightarrow> TauriHlsLoader \<times> effect list" where
  "abort l =
     (let st = (stats l)\<lparr> aborted := True \<rparr>;
          l' = l\<lparr> stats := st \<rparr>
      in case (callbacks l, loader_context l) of
           (Some cb, Some c) \<Rightarrow> (l', if has_onAbort cb then [OnAbort cb st c] else [])
         | _ \<Rightarrow> (l', []))"

datatype request_kind = Playlist | Segment

definition isPlaylist :: "LoaderContext \<Rightarrow> bool" where
  "isPlaylist c = js_includes (url c) (js ''.m3u8'')"

text \<open>
  \<open>load\<close> stores context and callbacks, stamps \<open>loading.start\<close> with the clock value
  \<open>now\<close> and starts \<open>loadPlaylist\<close> or \<open>loadSegment\<close>, each of which issues its bridge
  call at once (with \<open>this.context.url\<close>) and then waits for it. The result names the
  kind of the pending operation.
\<close>

definition load ::
  "LoaderContext \<Rightarrow> LoaderCallbacks \<Rightarrow> real \<Rightarrow> TauriHlsLoader
     \<Rightarrow> TauriHlsLoader \<times> request_kind \<times> effect list" where
  "load c cb now l =
     (let l' = l\<lparr> loader_context := Some c, callbacks := Some cb,
                  stats := (stats l)\<lparr> loading_start := now \<rparr> \<rparr>
      in if isPlaylist c then (l', Playlist, [Invoke (Fetch_m3u8 (url c))])
         else (l', Segment, [Invoke (Fetch_bytes (url c))]))"

text \<open>The stamps both success paths put on the stats, for a payload of \<open>n\<close> units.\<close>

definition stamp :: "real \<Rightarrow> nat \<Rightarrow> LoaderStats \<Rightarrow> LoaderStats" where
  "stamp now n st =
     st\<lparr> loading_first := (if loading_first st = 0 then now else loading_first st),
         loading_end := now, loaded := n, total := n,
         parsing_start := now, parsing_end := now,
         buffering_start := now, buffering_first := now, buffering_end := now \<rparr>"

text \<open>
  The part of \<open>loadPlaylist\<close> after the \<open>await\<close>: it runs when the bridge call has
  settled, with \<open>now\<close> the value \<open>performance.now()\<close> gives then. The \<open>catch\<close> branch
  is the \<open>Rejected\<close> case. \<open>this.callbacks?.onSuccess\<close> calls nothing when the
  callbacks are null. The callbacks belong to the streaming engine and are taken to
  return normally. Logging is not part of the effects.
\<close>

definition loadPlaylist_settled ::
  "jsstring settled \<Rightarrow> real \<Rightarrow> TauriHlsLoader \<Rightarrow> TauriHlsLoader \<times> effect list" where
  "loadPlaylist_settled r now l =
     (if destroyed l \<or> aborted (stats l) then (l, [])
      else case r of
        Fulfilled data \<Rightarrow>
          (let st = stamp now (length data) (stats l);
               l' = l\<lparr> stats := st \<rparr>
           in case (callbacks l, loader_context l) of
                (Some cb, Some c) \<Rightarrow>
                  (l', [OnSuccess cb \<lparr> response_url = url c, response_data = Text data \<rparr> st c])
              | _ \<Rightarrow> (l', []))
      | Rejected cause \<Rightarrow>
          (case (callbacks l, loader_context l) of
             (Some cb, Some c) \<Rightarrow> (l, [OnError cb cause c (stats l)])
           | _ \<Rightarrow> (l, [])))"

text \<open>
  The same for \<open>loadSegment\<close>: the numbers are copied into a \<open>Uint8Array\<close> (each
  reduced modulo 256) and the byte length is the number of elements.
\<close>

definition loadSegment_settled ::
  "nat list settled \<Rightarrow> real \<Rightarrow> TauriHlsLoader \<Rightarrow> TauriHlsLoader \<times> effect list" where
  "loadSegment_settled r now l =
     (if destroyed l \<or> aborted (stats l) then (l, [])
      else case r of
        Fulfilled data \<Rightarrow>
          (let arrayBuffer = map word_of_nat data;
               st = stamp now (length arrayBuffer) (stats l);
               l' = l\<lparr> stats := st \<rparr>
           in case (callbacks l, loader_context l) of
                (Some cb, Some c) \<Rightarrow>
                  (l', [OnSuccess cb
                          \<lparr> response_url = url c, response_data = Bytes arrayBuffer \<rparr> st c])
              | _ \<Rightarrow> (l', []))
      | Rejected cause \<Rightarrow>
          (case (callbacks l, loader_context l) of
             (Some cb, Some c) \<Rightarrow> (l, [OnError cb cause c (stats l)])
           | _ \<Rightarrow> (l, [])))"

subsection \<open>Loads in flight\<close>

text \<open>
  The event loop around one loader instance. Every \<open>load\<close> gets the next number;
  its bridge call stays pending until the bridge settles it, and only then does the
  rest of \<open>loadPlaylist\<close> or \<open>loadSegment\<close> run. Calls settle in any order. Each
  effect is tagged with the number of the load whose code produced it (\<open>abort\<close>
  belongs to no load).
\<close>

datatype bridge_reply = Reply_m3u8 "jsstring settled" | Reply_bytes "nat list settled"

datatype loader_event =
    Load LoaderContext LoaderCallbacks real
  | Abort
  | Destroy
  | Settle nat bridge_reply real

record loader_sys =
  loader :: TauriHlsLoader
  pending :: "(nat \<times> request_kind) list"
  issued :: nat

definition new_sys :: loader_sys where
  "new_sys = \<lparr> loader = new_loader, pending = [], issued = 0 \<rparr>"

definition tagged :: "nat option \<Rightarrow> effect list \<Rightarrow> (nat option \<times> effect) list" where
  "tagged t es = map (\<lambda>e. (t, e)) es"

fun step :: "loader_event \<Rightarrow> loader_sys \<Rightarrow> loader_sys \<times> (nat option \<times> effect) list" where
  "step (Load c cb now) s =
     (case load c cb now (loader s) of
        (l', kind, es) \<Rightarrow>
          (s\<lparr> loader := l', pending := pending s @ [(issued s, kind)],
               issued := Suc (issued s) \<rparr>,
           tagged (Some (issued s)) es))"
| "step Abort s = (case abort (loader s) of (l', es) \<Rightarrow> (s\<lparr> loader := l' \<rparr>, tagged None es))"
| "step Destroy s = (s\<lparr> loader := destroy (loader s) \<rparr>, [])"
| "step (Settle n (Reply_m3u8 r) now) s =
     (if (n, Playlist) \<in> set (pending s)
      then case loadPlaylist_settled r now (loader s) of
             (l', es) \<Rightarrow>
               (s\<lparr> loader := l', pending := removeAll (n, Playlist) (pending s) \<rparr>,
                tagged (Some n) es)
      else (s, []))"
| "step (Settle n (Reply_bytes r) now) s =
     (if (n, Segment) \<in> set (pending s)
      then case loadSegment_settled r now (loader s) of
             (l', es) \<Rightarrow>
               (s\<lparr> loader := l', pending := removeAll (n, Segment) (pending s) \<rparr>,
                tagged (Some n) es)
      else (s, []))"

fun run :: "loader_sys \<Rightarrow> loader_event list \<Rightarrow> loader_sys \<times> (nat option \<times> effect) list" where
  "run s [] = (s, [])"
| "run s (e # es) =
     (case step e s of (s1, t1) \<Rightarrow> (case run s1 es of (s2, t2) \<Rightarrow> (s2, t1 @ t2)))"

text \<open>The two callbacks that report the outcome of a load.\<close>

fun is_result :: "effect \<Rightarrow> bool" where
  "is_result (OnSuccess cb r st c) = True"
| "is_result (OnError cb t c st) = True"
| "is_result (Invoke b) = False"
| "is_result (OnAbort cb st c) = False"

text \<open>The instance is cancelled once \<open>abort\<close> or \<open>destroy\<close> has run on it.\<close>

definition cancelled :: "TauriHlsLoader \<Rightarrow> bool" where
  "cancelled l = (destroyed l \<or> aborted (stats l))"


text \<open>
  \<open>performance.now()\<close> is monotonic: the clock values that the events of a run
  read, starting from \<open>t\<close>, do not decrease.
\<close>

fun clock_ok :: "real \<Rightarrow> loader_event list \<Rightarrow> bool" where
  "clock_ok t [] = True"
| "clock_ok t (Load c cb now # es) = (t \<le> now \<and> clock_ok now es)"
| "clock_ok t (Settle n r now # es) = (t \<le> now \<and> clock_ok now es)"
| "clock_ok t (Abort # es) = clock_ok t es"
| "clock_ok t (Destroy # es) = clock_ok t es"

definition success_ordered :: "effect \<Rightarrow> bool" where
  "success_ordered e =
     (case e of OnSuccess cb r st c \<Rightarrow> loading_start st \<le> loading_end st | _ \<Rightarrow> True)"

section \<open>The chat hook (hooks/useChat.ts, in its two versions)\<close>

text \<open>
  \<open>ChatMessage\<close> as the listener uses it. \<open>msg_id\<close> is the optional \<open>id\<close> that the
  identity-based listener reads; \<open>timestamp\<close> is a value of \<open>Date.now()\<close> in
  milliseconds.
\<close>

record ChatMessage =
  user :: jsstring
  message :: jsstring
  color :: "jsstring option"
  badges :: "(jsstring \<times> jsstring) list"
  timestamp :: int
  channel :: jsstring
  msg_id :: "jsstring option"

text \<open>
  The state the hook keeps: the \<open>messages\<close> state, \<open>currentChannelRef.current\<close> and
  \<open>seenIdsRef.current\<close>, a JavaScript \<open>Set\<close>, kept as the list of its elements in
  insertion order. The scroll state plays no part in what is delivered and is
  left out.
\<close>

record chat_state =
  messages :: "ChatMessage list"
  currentChannelRef :: "jsstring option"
  seenIdsRef :: "jsstring list"

definition new_chat :: chat_state where
  "new_chat = \<lparr> messages = [], currentChannelRef = None, seenIdsRef = [] \<rparr>"

text \<open>\<open>Set.prototype.add\<close> and \<open>delete\<close>: an element that is present keeps its place.\<close>

definition set_add :: "'a \<Rightarrow> 'a list \<Rightarrow> 'a list" where
  "set_add x xs = (if x \<in> set xs then xs else xs @ [x])"

definition set_delete :: "'a \<Rightarrow> 'a list \<Rightarrow> 'a list" where
  "set_delete x xs = removeAll x xs"

text \<open>\<open>xs.slice(-n)\<close>: the last \<open>n\<close> elements, all of them when there are fewer.\<close>

definition slice_last :: "nat \<Rightarrow> 'a list \<Rightarrow> 'a list" where
  "slice_last n xs = drop (length xs - n) xs"

datatype chat_effect = Connect_to_chat jsstring

text \<open>
  The effect that runs when the \<open>channel\<close> argument of the hook has changed. A null
  or empty channel clears everything; otherwise the reference is set, the history
  and the seen identifiers are cleared and \<open>connect_to_chat\<close> is invoked. (The
  content/time version has no \<open>seenIdsRef\<close>; there the field is always empty.)
\<close>

definition channel_effect :: "jsstring option \<Rightarrow> chat_state \<Rightarrow> chat_state \<times> chat_effect list" where
  "channel_effect ch s =
     (case ch of
        None \<Rightarrow> (s\<lparr> currentChannelRef := None, messages := [], seenIdsRef := [] \<rparr>, [])
      | Some c \<Rightarrow>
          if c = [] then (s\<lparr> currentChannelRef := None, messages := [], seenIdsRef := [] \<rparr>, [])
          else (s\<lparr> currentChannelRef := Some c, messages := [], seenIdsRef := [] \<rparr>,
                [Connect_to_chat c]))"

text \<open>\<open>newMsg.id && seenIdsRef.current.has(newMsg.id)\<close>\<close>

definition already_seen :: "ChatMessage \<Rightarrow> jsstring list \<Rightarrow> bool" where
  "already_seen newMsg seen =
     (case msg_id newMsg of None \<Rightarrow> False | Some i \<Rightarrow> i \<noteq> [] \<and> i \<in> set seen)"

text \<open>
  The bookkeeping of the seen identifiers: a truthy id is added, and when the set
  then holds more than 500, its first element (the oldest) is deleted if truthy.
\<close>

definition remember :: "ChatMessage \<Rightarrow> jsstring list \<Rightarrow> jsstring list" where
  "remember newMsg seen =
     (case msg_id newMsg of
        None \<Rightarrow> seen
      | Some i \<Rightarrow>
          if i = [] then seen
          else let seen1 = set_add i seen
               in if length seen1 > 500
                  then (case seen1 of
                          [] \<Rightarrow> seen1
                        | firstId # rest \<Rightarrow>
                            if firstId \<noteq> [] then set_delete firstId seen1 else seen1)
                  else seen1)"

text \<open>
  The \<open>chat-message\<close> listener of hooks/useChat.ts (identity-based suppression);
  \<open>now\<close> is the value of \<open>Date.now()\<close>.
\<close>

definition on_chat_message :: "ChatMessage \<Rightarrow> int \<Rightarrow> chat_state \<Rightarrow> chat_state" where
  "on_chat_message newMsg now s =
     (if Some (channel newMsg) \<noteq> currentChannelRef s then s
      else if already_seen newMsg (seenIdsRef s) then s
      else s\<lparr> seenIdsRef := remember newMsg (seenIdsRef s),
              messages := slice_last 200 (messages s @ [newMsg\<lparr> timestamp := now \<rparr>]) \<rparr>)"

text \<open>
  The \<open>chat-message\<close> listener of the other version of the hook (content/time
  suppression): the event is dropped when the history has a last entry (\<open>lastMsg\<close>
  is defined) with the same user and text that is less than 100 ms old
  (\<open>is_repeat\<close>). Both readings of \<open>Date.now()\<close> in the updater are the one value
  \<open>now\<close>.
\<close>

definition is_repeat :: "ChatMessage \<Rightarrow> int \<Rightarrow> ChatMessage list \<Rightarrow> bool" where
  "is_repeat newMsg now prev =
     (prev \<noteq> [] \<and> user (last prev) = user newMsg
        \<and> message (last prev) = message newMsg
        \<and> now - timestamp (last prev) < 100)"

definition on_chat_message_ct :: "ChatMessage \<Rightarrow> int \<Rightarrow> chat_state \<Rightarrow> chat_state" where
  "on_chat_message_ct newMsg now s =
     (if Some (channel newMsg) \<noteq> currentChannelRef s then s
      else let prev = messages s
           in if is_repeat newMsg now prev then s
              else s\<lparr> messages := slice_last 200 (prev @ [newMsg\<lparr> timestamp := now \<rparr>]) \<rparr>)"

datatype policy = Identity | ContentTime

fun deliver :: "policy \<Rightarrow> ChatMessage \<Rightarrow> int \<Rightarrow> chat_state \<Rightarrow> chat_state" where
  "deliver Identity = on_chat_message"
| "deliver ContentTime = on_chat_message_ct"

text \<open>
  An event is accepted when it is on the current channel and the policy does not
  suppress it: these are the events for which the listener reaches its append.
\<close>

definition accepted :: "policy \<Rightarrow> ChatMessage \<Rightarrow> int \<Rightarrow> chat_state \<Rightarrow> bool" where
  "accepted p newMsg now s =
     (Some (channel newMsg) = currentChannelRef s
      \<and> (case p of
            Identity \<Rightarrow> \<not> already_seen newMsg (seenIdsRef s)
          | ContentTime \<Rightarrow> \<not> is_repeat newMsg now (messages s)))"

text \<open>
  The \<open>chat-disconnected\<close> listener is an async function of the payload that closes
  over the \<open>channel\<close> of the render that registered it. It runs up to the \<open>await\<close>
  of the 2000 ms timer; what is suspended there holds the payload and the closed-over
  channel. When the timer fires the rest runs on these two values.
\<close>

record reconnect =
  disconnectedChannel :: jsstring
  closure_channel :: "jsstring option"
  delay_ms :: nat

definition on_chat_disconnected :: "jsstring \<Rightarrow> jsstring option \<Rightarrow> reconnect option" where
  "on_chat_disconnected payload ch =
     (if Some payload = ch
      then Some \<lparr> disconnectedChannel = payload, closure_channel = ch, delay_ms = 2000 \<rparr>
      else None)"

definition reconnect_resumed :: "reconnect \<Rightarrow> chat_effect list" where
  "reconnect_resumed k =
     (if Some (disconnectedChannel k) = closure_channel k
      then (case closure_channel k of Some c \<Rightarrow> [Connect_to_chat c] | None \<Rightarrow> [])
      else [])"

text \<open>
  The hook in its component: \<open>channel_prop\<close> is the \<open>channel\<close> of the latest
  render, which the registered \<open>chat-disconnected\<close> listener closes over;
  \<open>waiting\<close> are the listener calls suspended at their timer. Selecting a channel
  re-renders; the effects that depend on \<open>channel\<close> run only when it has changed.
\<close>

record hook_state =
  chat :: chat_state
  channel_prop :: "jsstring option"
  waiting :: "reconnect list"

definition new_hook :: hook_state where
  "new_hook = \<lparr> chat = new_chat, channel_prop = None, waiting = [] \<rparr>"

datatype hook_event =
    Select "jsstring option"
  | Chat_message ChatMessage int
  | Chat_disconnected jsstring
  | Delay_elapsed nat

fun hook_step :: "policy \<Rightarrow> hook_event \<Rightarrow> hook_state \<Rightarrow> hook_state \<times> chat_effect list" where
  "hook_step p (Select ch) s =
     (if ch = channel_prop s then (s, [])
      else case channel_effect ch (chat s) of
             (c', es) \<Rightarrow> (s\<lparr> chat := c', channel_prop := ch \<rparr>, es))"
| "hook_step p (Chat_message m now) s = (s\<lparr> chat := deliver p m now (chat s) \<rparr>, [])"
| "hook_step p (Chat_disconnected payload) s =
     (case on_chat_disconnected payload (channel_prop s) of
        None \<Rightarrow> (s, [])
      | Some k \<Rightarrow> (s\<lparr> waiting := waiting s @ [k] \<rparr>, []))"
| "hook_step p (Delay_elapsed i) s =
     (if i < length (waiting s)
      then (s\<lparr> waiting := take i (waiting s) @ drop (Suc i) (waiting s) \<rparr>,
            reconnect_resumed (waiting s ! i))
      else (s, []))"

fun hook_run :: "policy \<Rightarrow> hook_state \<Rightarrow> hook_event list \<Rightarrow> hook_state \<times> chat_effect list" where
  "hook_run p s [] = (s, [])"
| "hook_run p s (e # es) =
     (case hook_step p e s of
        (s1, t1) \<Rightarrow> (case hook_run p s1 es of (s2, t2) \<Rightarrow> (s2, t1 @ t2)))"

definition is_select :: "hook_event \<Rightarrow> bool" where
  "is_select e = (case e of Select ch \<Rightarrow> True | _ \<Rightarrow> False)"

text \<open>
  The seen identifiers as the listener keeps them: no identifier twice (it is a set),
  none empty (only truthy ids are added), at most 500.
\<close>

definition seen_ok :: "jsstring list \<Rightarrow> bool" where
  "seen_ok seen = (distinct seen \<and> [] \<notin> set seen \<and> length seen \<le> 500)"

text \<open>Every entry of the history carries the channel that is current.\<close>

definition history_on_current :: "chat_state \<Rightarrow> bool" where
  "history_on_current s = list_all (\<lambda>m. Some (channel m) = currentChannelRef s) (messages s)"

section \<open>The emote and badge tables (hooks/useEmotes.ts)\<close>

text \<open>
  A JavaScript \<open>Map\<close> from token to image address, kept as its entries in insertion
  order. \<open>set\<close> replaces the value of a key that is present, in place, and appends a
  new key; \<open>get\<close> returns the value of the key, if any.
\<close>

type_synonym emote_map = "(jsstring \<times> jsstring) list"

fun map_set :: "'k \<Rightarrow> 'v \<Rightarrow> ('k \<times> 'v) list \<Rightarrow> ('k \<times> 'v) list" where
  "map_set k v [] = [(k, v)]"
| "map_set k v ((k', v') # m) = (if k' = k then (k, v) # m else (k', v') # map_set k v m)"

definition map_get :: "('k \<times> 'v) list \<Rightarrow> 'k \<Rightarrow> 'v option" where
  "map_get m k = map_of m k"

text \<open>A \<open>Map\<close> holds every key once.\<close>

definition wf_map :: "('k \<times> 'v) list \<Rightarrow> bool" where
  "wf_map m = distinct (map fst m)"

text \<open>\<open>src.forEach((v, k) => dst.set(k, v))\<close>\<close>

definition set_each :: "('k \<times> 'v) list \<Rightarrow> ('k \<times> 'v) list \<Rightarrow> ('k \<times> 'v) list" where
  "set_each src dst = fold (\<lambda>(k, v) m. map_set k v m) src dst"

record Emote =
  emote_name :: jsstring
  emote_url :: jsstring

record TwitchImages =
  url_1x :: jsstring
  url_2x :: jsstring

record TwitchEmote =
  twitch_name :: jsstring
  images :: "TwitchImages option"

record TwitchBadge =
  setID :: jsstring
  version :: jsstring
  imageURL :: jsstring

text \<open>\<open>emoteList.forEach(e => emoteMap.set(e.name, e.url))\<close> on a new map.\<close>

definition emote_table :: "Emote list \<Rightarrow> emote_map" where
  "emote_table emoteList = fold (\<lambda>e m. map_set (emote_name e) (emote_url e) m) emoteList []"

text \<open>
  The table built from a Twitch emote list: the address is \<open>url_2x\<close>, or \<open>url_1x\<close>
  when that is missing or empty, and an emote without name or address is skipped.
\<close>

definition twitch_url :: "TwitchEmote \<Rightarrow> jsstring" where
  "twitch_url e =
     (case images e of None \<Rightarrow> [] | Some i \<Rightarrow> if url_2x i \<noteq> [] then url_2x i else url_1x i)"

definition twitch_table :: "TwitchEmote list \<Rightarrow> emote_map" where
  "twitch_table es =
     fold (\<lambda>e m. if twitch_name e \<noteq> [] \<and> twitch_url e \<noteq> []
                  then map_set (twitch_name e) (twitch_url e) m else m) es []"

record emotes_state =
  globalEmotes :: emote_map
  twitchGlobalEmotes :: emote_map
  globalBadges :: "TwitchBadge list"
  channelEmotes :: emote_map
  twitchChannelEmotes :: emote_map
  channelBadges :: "TwitchBadge list"

definition new_emotes :: emotes_state where
  "new_emotes = \<lparr> globalEmotes = [], twitchGlobalEmotes = [], globalBadges = [],
     channelEmotes = [], twitchChannelEmotes = [], channelBadges = [] \<rparr>"

text \<open>
  What a fulfilled bridge call hands back is JSON from the host. An emote list reply
  is \<open>None\<close> when it is null, so that \<open>emoteList.forEach\<close> throws. A badge reply is
  \<open>No_user\<close> when the reply or its \<open>user\<close> is null or missing, so that reading
  \<open>badges.user.broadcastBadges\<close> throws. A Twitch emote reply is \<open>None\<close> when it is
  null or lacks \<open>data\<close>, which the code tests with \<open>twitchEmotes?.data\<close>. Whatever is
  thrown inside a \<open>try\<close> ends in its \<open>catch\<close>, which only logs; a table set before
  the throw stays set.
\<close>

datatype badge_reply = No_user | Badges "TwitchBadge list"

text \<open>
  The three loads at startup, each an async function with its own \<open>try\<close> and
  \<open>catch\<close>; the argument is how its bridge call settled. In \<open>loadGlobalBadges\<close> a
  null reply throws at \<open>data.badges\<close>.
\<close>

definition loadGlobalEmotes :: "Emote list option settled \<Rightarrow> emotes_state \<Rightarrow> emotes_state" where
  "loadGlobalEmotes r s =
     (case r of Fulfilled (Some emoteList) \<Rightarrow> s\<lparr> globalEmotes := emote_table emoteList \<rparr>
              | Fulfilled None \<Rightarrow> s
              | Rejected err \<Rightarrow> s)"

definition loadTwitchGlobalEmotes ::
  "TwitchEmote list option settled \<Rightarrow> emotes_state \<Rightarrow> emotes_state" where
  "loadTwitchGlobalEmotes r s =
     (case r of Fulfilled (Some es) \<Rightarrow> s\<lparr> twitchGlobalEmotes := twitch_table es \<rparr>
              | Fulfilled None \<Rightarrow> s
              | Rejected err \<Rightarrow> s)"

definition loadGlobalBadges :: "TwitchBadge list option settled \<Rightarrow> emotes_state \<Rightarrow> emotes_state" where
  "loadGlobalBadges r s =
     (case r of Fulfilled (Some bs) \<Rightarrow> s\<lparr> globalBadges := bs \<rparr>
              | Fulfilled None \<Rightarrow> s
              | Rejected err \<Rightarrow> s)"

text \<open>
  \<open>loadChannelEmotes\<close> awaits the three bridge calls together with \<open>Promise.all\<close>
  inside one \<open>try\<close>: the code after the \<open>await\<close> runs only when all three are
  fulfilled, and a rejection of any of them goes to the \<open>catch\<close>, which only logs.
  The arguments are how \<open>get_channel_emotes\<close>, \<open>get_channel_badges\<close> and
  \<open>get_twitch_channel_emotes\<close> settled. After the \<open>await\<close> the statements run in the
  order of the source: the emote table is built and \<open>setChannelEmotes\<close> called; then
  \<open>setChannelBadges(badges.user.broadcastBadges)\<close>, whose argument throws on a reply
  without \<open>user\<close>, after the emote table has been set; then the subscriber emotes,
  when the reply carries data.
\<close>

definition loadChannelEmotes ::
  "Emote list option settled \<Rightarrow> badge_reply settled \<Rightarrow> TwitchEmote list option settled
     \<Rightarrow> emotes_state \<Rightarrow> emotes_state" where
  "loadChannelEmotes r1 r2 r3 s =
     (case (r1, r2, r3) of
        (Fulfilled emoteReply, Fulfilled badgeReply, Fulfilled twitchEmotes) \<Rightarrow>
          (case emoteReply of
             None \<Rightarrow> s
           | Some emoteList \<Rightarrow>
               (let s1 = s\<lparr> channelEmotes := emote_table emoteList \<rparr>
                in case badgeReply of
                     No_user \<Rightarrow> s1
                   | Badges broadcastBadges \<Rightarrow>
                       (let s2 = s1\<lparr> channelBadges := broadcastBadges \<rparr>
                        in case twitchEmotes of
                             Some es \<Rightarrow> s2\<lparr> twitchChannelEmotes := twitch_table es \<rparr>
                           | None \<Rightarrow> s2)))
      | _ \<Rightarrow> s)"

text \<open>
  The merged lookup: a copy of the Twitch global table, over which the entries of
  the third-party global, the Twitch channel and the third-party channel tables
  are set, in this order.
\<close>

definition allEmotes :: "emotes_state \<Rightarrow> emote_map" where
  "allEmotes s =
     (let combined = twitchGlobalEmotes s;
          combined = set_each (globalEmotes s) combined;
          combined = set_each (twitchChannelEmotes s) combined;
          combined = set_each (channelEmotes s) combined
      in combined)"

text \<open>
  \<open>useMemo\<close> keeps the value with the four tables it was computed from and computes
  it anew on a render whose tables differ from them. (React compares the
  dependencies by identity; a published table is never changed in place, so the same
  table has the same entries.)
\<close>

record memo =
  memo_deps :: "emote_map \<times> emote_map \<times> emote_map \<times> emote_map"
  memo_value :: emote_map

definition deps_of :: "emotes_state \<Rightarrow> emote_map \<times> emote_map \<times> emote_map \<times> emote_map" where
  "deps_of s = (twitchGlobalEmotes s, globalEmotes s, twitchChannelEmotes s, channelEmotes s)"

definition useMemo_allEmotes :: "memo option \<Rightarrow> emotes_state \<Rightarrow> memo" where
  "useMemo_allEmotes prev s =
     (case prev of
        None \<Rightarrow> \<lparr> memo_deps = deps_of s, memo_value = allEmotes s \<rparr>
      | Some m \<Rightarrow> if memo_deps m = deps_of s then m
                  else \<lparr> memo_deps = deps_of s, memo_value = allEmotes s \<rparr>)"

text \<open>The memo cell after a sequence of renders, each with the tables of its time.\<close>

fun renders :: "memo option \<Rightarrow> emotes_state list \<Rightarrow> memo option" where
  "renders prev [] = prev"
| "renders prev (s # ss) = renders (Some (useMemo_allEmotes prev s)) ss"

text \<open>The four tables that are merged hold every key once.\<close>

definition tables_wf :: "emotes_state \<Rightarrow> bool" where
  "tables_wf s = (wf_map (twitchGlobalEmotes s) \<and> wf_map (globalEmotes s)
     \<and> wf_map (twitchChannelEmotes s) \<and> wf_map (channelEmotes s))"

section \<open>Example inputs\<close>

definition ex_playlist :: LoaderContext where
  "ex_playlist = \<lparr> url = js ''live.m3u8'' \<rparr>"


definition ex_query :: LoaderContext where
  "ex_query = \<lparr> url = js ''a.m3u8?b'' \<rparr>"

definition ex_callbacks :: LoaderCallbacks where
  "ex_callbacks = \<lparr> handle = 7, has_onAbort = True \<rparr>"

definition ex_msg :: "string \<Rightarrow> string \<Rightarrow> string \<Rightarrow> string \<Rightarrow> ChatMessage" where
  "ex_msg ch u t i = \<lparr> user = js u, message = js t, color = None, badges = [],
     timestamp = 0, channel = js ch, msg_id = (if i = [] then None else Some (js i)) \<rparr>"


text \<open>Tables in which the token \<open>Kappa\<close> is defined at three levels and \<open>LUL\<close> at one.\<close>

definition ex_emotes :: emotes_state where
  "ex_emotes = \<lparr> globalEmotes = [(js ''Kappa'', js ''g'')],
     twitchGlobalEmotes = [(js ''Kappa'', js ''tg''), (js ''LUL'', js ''tg2'')],
     globalBadges = [],
     channelEmotes = [(js ''Pog'', js ''c'')],
     twitchChannelEmotes = [(js ''Kappa'', js ''tc'')],
     channelBadges = [] \<rparr>"

definition ex_emote :: Emote where
  "ex_emote = \<lparr> emote_name = js ''Pog'', emote_url = js ''c'' \<rparr>"

text \<open>A chat state on channel alpha whose history is at its capacity of 200.\<close>

definition ex_busy :: chat_state where
  "ex_busy = \<lparr> messages = ex_msg ''alpha'' ''old'' ''first'' []
                 # replicate 199 (ex_msg ''alpha'' ''bob'' ''hi'' []),
     currentChannelRef = Some (js ''alpha''), seenIdsRef = [] \<rparr>"

section \<open>Properties of the loader\<close>

lemma tagged_set: "x \<in> set (tagged t es) \<longleftrightarrow> fst x = t \<and> snd x \<in> set es"
  by (cases x) (auto simp: tagged_def)

lemma load_stats: "stats (fst (load c cb now l)) = (stats l)\<lparr> loading_start := now \<rparr>"
  by (simp add: load_def Let_def)

lemma load_destroyed: "destroyed (fst (load c cb now l)) = destroyed l"
  by (simp add: load_def Let_def)

lemma load_effects: "e \<in> set (snd (snd (load c cb now l))) \<Longrightarrow> \<not> is_result e"
  by (auto simp: load_def Let_def split: if_splits)

lemma abort_flags:
  "aborted (stats (fst (abort l)))" "destroyed (fst (abort l)) = destroyed l"
  by (auto simp: abort_def Let_def split: option.splits)

lemma abort_effects: "e \<in> set (snd (abort l)) \<Longrightarrow> \<not> is_result e"
  by (auto simp: abort_def Let_def split: option.splits if_splits)

lemma destroy_flags:
  "destroyed (destroy l)" "aborted (stats (destroy l)) = aborted (stats l)"
  by (auto simp: destroy_def)

lemma playlist_cancelled: "cancelled l \<Longrightarrow> loadPlaylist_settled r now l = (l, [])"
  by (simp add: loadPlaylist_settled_def cancelled_def)

lemma segment_cancelled: "cancelled l \<Longrightarrow> loadSegment_settled r now l = (l, [])"
  by (simp add: loadSegment_settled_def cancelled_def)

lemma playlist_flags:
  "aborted (stats (fst (loadPlaylist_settled r now l))) = aborted (stats l)"
  "destroyed (fst (loadPlaylist_settled r now l)) = destroyed l"
  by (auto simp: loadPlaylist_settled_def stamp_def Let_def split: settled.splits option.splits)

lemma segment_flags:
  "aborted (stats (fst (loadSegment_settled r now l))) = aborted (stats l)"
  "destroyed (fst (loadSegment_settled r now l)) = destroyed l"
  by (auto simp: loadSegment_settled_def stamp_def Let_def split: settled.splits option.splits)

lemma step_aborted:
  "aborted (stats (loader s)) \<Longrightarrow> aborted (stats (loader (fst (step e s))))"
proof (cases e)
  case (Load c cb now)
  obtain l' k es where L: "load c cb now (loader s) = (l', k, es)"
    by (cases "load c cb now (loader s)") auto
  assume "aborted (stats (loader s))"
  with load_stats [of c cb now "loader s"] L Load show ?thesis by simp
next
  case Abort
  obtain l' es where A: "abort (loader s) = (l', es)" by (cases "abort (loader s)") auto
  with abort_flags(1) [of "loader s"] Abort show ?thesis by simp
next
  case Destroy
  assume "aborted (stats (loader s))"
  with Destroy show ?thesis by (simp add: destroy_flags)
next
  case (Settle n r now)
  assume a: "aborted (stats (loader s))"
  show ?thesis
  proof (cases r)
    case (Reply_m3u8 x)
    with Settle a show ?thesis
      by (simp add: playlist_cancelled cancelled_def)
  next
    case (Reply_bytes x)
    with Settle a show ?thesis
      by (simp add: segment_cancelled cancelled_def)
  qed
qed

lemma step_destroyed:
  "destroyed (loader s) \<Longrightarrow> destroyed (loader (fst (step e s)))"
proof (cases e)
  case (Load c cb now)
  obtain l' k es where L: "load c cb now (loader s) = (l', k, es)"
    by (cases "load c cb now (loader s)") auto
  assume "destroyed (loader s)"
  with load_destroyed [of c cb now "loader s"] L Load show ?thesis by simp
next
  case Abort
  obtain l' es where A: "abort (loader s) = (l', es)" by (cases "abort (loader s)") auto
  assume "destroyed (loader s)"
  with abort_flags(2) [of "loader s"] A Abort show ?thesis by simp
next
  case Destroy
  then show ?thesis by (simp add: destroy_flags)
next
  case (Settle n r now)
  assume a: "destroyed (loader s)"
  show ?thesis
  proof (cases r)
    case (Reply_m3u8 x)
    with Settle a show ?thesis
      by (simp add: playlist_cancelled cancelled_def)
  next
    case (Reply_bytes x)
    with Settle a show ?thesis
      by (simp add: segment_cancelled cancelled_def)
  qed
qed

lemma step_cancelled: "cancelled (loader s) \<Longrightarrow> cancelled (loader (fst (step e s)))"
  unfolding cancelled_def using step_aborted step_destroyed by blast

lemma step_silent:
  assumes "cancelled (loader s)" and "x \<in> set (snd (step e s))"
  shows "\<not> is_result (snd x)"
proof (cases e)
  case (Load c cb now)
  obtain l' k es where L: "load c cb now (loader s) = (l', k, es)"
    by (cases "load c cb now (loader s)") auto
  with assms(2) Load have "snd x \<in> set es" by (simp add: tagged_set)
  with load_effects [of "snd x" c cb now "loader s"] L show ?thesis by simp
next
  case Abort
  obtain l' es where A: "abort (loader s) = (l', es)" by (cases "abort (loader s)") auto
  with assms(2) Abort have "snd x \<in> set es" by (simp add: tagged_set)
  with abort_effects [of "snd x" "loader s"] A show ?thesis by simp
next
  case Destroy
  with assms(2) show ?thesis by simp
next
  case (Settle n r now)
  show ?thesis
  proof (cases r)
    case (Reply_m3u8 y)
    with Settle assms show ?thesis
      by (simp add: playlist_cancelled tagged_def split: if_splits)
  next
    case (Reply_bytes y)
    with Settle assms show ?thesis
      by (simp add: segment_cancelled tagged_def split: if_splits)
  qed
qed

lemma run_step: "run s (e # es) = (fst (run (fst (step e s)) es), snd (step e s) @ snd (run (fst (step e s)) es))"
  by (simp split: prod.splits)


lemma run_aborted:
  "aborted (stats (loader s)) \<Longrightarrow> aborted (stats (loader (fst (run s es))))"
proof (induction es arbitrary: s)
  case Nil
  then show ?case by simp
next
  case (Cons e es)
  from Cons.prems have "aborted (stats (loader (fst (step e s))))" by (rule step_aborted)
  then have "aborted (stats (loader (fst (run (fst (step e s)) es))))" by (rule Cons.IH)
  then show ?case by (subst run_step) simp
qed

lemma run_destroyed:
  "destroyed (loader s) \<Longrightarrow> destroyed (loader (fst (run s es)))"
proof (induction es arbitrary: s)
  case Nil
  then show ?case by simp
next
  case (Cons e es)
  from Cons.prems have "destroyed (loader (fst (step e s)))" by (rule step_destroyed)
  then have "destroyed (loader (fst (run (fst (step e s)) es)))" by (rule Cons.IH)
  then show ?case by (subst run_step) simp
qed

lemma run_silent:
  "cancelled (loader s) \<Longrightarrow> x \<in> set (snd (run s es)) \<Longrightarrow> \<not> is_result (snd x)"
proof (induction es arbitrary: s)
  case Nil
  then show ?case by simp
next
  case (Cons e es)
  from Cons.prems(2) consider "x \<in> set (snd (step e s))"
    | "x \<in> set (snd (run (fst (step e s)) es))"
    by (subst (asm) run_step) auto
  then show ?case
  proof cases
    case 1
    with Cons.prems(1) show ?thesis by (rule step_silent)
  next
    case 2
    from Cons.prems(1) have "cancelled (loader (fst (step e s)))" by (rule step_cancelled)
    then show ?thesis using 2 by (rule Cons.IH)
  qed
qed

lemma js_includes_iff: "js_includes s search \<longleftrightarrow> (\<exists>pre post. s = pre @ search @ post)"
proof (induction s)
  case Nil
  then show ?case by auto
next
  case (Cons c cs)
  show ?case
  proof
    assume "js_includes (c # cs) search"
    then consider "prefix search (c # cs)" | "js_includes cs search" by auto
    then show "\<exists>pre post. c # cs = pre @ search @ post"
    proof cases
      case 1
      then obtain post where "c # cs = search @ post" by (auto simp: prefix_def)
      then have "c # cs = [] @ search @ post" by simp
      then show ?thesis by blast
    next
      case 2
      with Cons.IH obtain pre post where "cs = pre @ search @ post" by blast
      then have "c # cs = (c # pre) @ search @ post" by simp
      then show ?thesis by blast
    qed
  next
    assume "\<exists>pre post. c # cs = pre @ search @ post"
    then obtain pre post where eq: "c # cs = pre @ search @ post" by blast
    show "js_includes (c # cs) search"
    proof (cases pre)
      case Nil
      with eq have "prefix search (c # cs)" by (simp add: prefix_def)
      then show ?thesis by simp
    next
      case (Cons p ps)
      with eq have "cs = ps @ search @ post" by simp
      with Cons.IH have "js_includes cs search" by blast
      then show ?thesis by simp
    qed
  qed
qed

text \<open>
  Claim C5, as amended. \<open>load\<close> sends a request to the text bridge call
  \<open>fetch_m3u8\<close> exactly when \<open>.m3u8\<close> occurs somewhere in its URL, and to the binary
  bridge call \<open>fetch_bytes\<close> otherwise; the choice depends on the URL alone (not on the
  callbacks, the clock or the state of the loader).
\<close>

theorem load_routes_by_substring:
  "snd (load c cb now l) =
     (if (\<exists>pre post. url c = pre @ js ''.m3u8'' @ post)
      then (Playlist, [Invoke (Fetch_m3u8 (url c))])
      else (Segment, [Invoke (Fetch_bytes (url c))]))"
  by (simp add: load_def Let_def isPlaylist_def js_includes_iff)

text \<open>
  The routing at two URLs: one that contains \<open>.m3u8\<close> before a query string, and a
  segment URL.
\<close>

theorem load_routes_by_substring_witness:
  "snd (load \<lparr> url = js ''a.m3u8?b'' \<rparr> \<lparr> handle = 1, has_onAbort = True \<rparr> 5 new_loader) =
     (Playlist, [Invoke (Fetch_m3u8 (js ''a.m3u8?b''))])
   \<and> snd (load \<lparr> url = js ''seg/1.ts'' \<rparr> \<lparr> handle = 1, has_onAbort = True \<rparr> 5 new_loader) =
     (Segment, [Invoke (Fetch_bytes (js ''seg/1.ts''))])"
proof -
  have a: "\<exists>pre post. js ''a.m3u8?b'' = pre @ js ''.m3u8'' @ post"
    unfolding js_includes_iff [symmetric] by (simp add: js_def)
  have b: "\<not> (\<exists>pre post. js ''seg/1.ts'' = pre @ js ''.m3u8'' @ post)"
    unfolding js_includes_iff [symmetric] by (simp add: js_def)
  show ?thesis
    using load_routes_by_substring [of "\<lparr> url = js ''a.m3u8?b'' \<rparr>" "\<lparr> handle = 1, has_onAbort = True \<rparr>" 5 new_loader]
      load_routes_by_substring [of "\<lparr> url = js ''seg/1.ts'' \<rparr>" "\<lparr> handle = 1, has_onAbort = True \<rparr>" 5 new_loader]
      a b by simp
qed

text \<open>
  Claim C5 as stated fails: the URL \<open>a.m3u8?b\<close> does not end with \<open>.m3u8\<close>, and
  \<open>load\<close> still routes it to \<open>fetch_m3u8\<close>.
\<close>

theorem suffix_routing_counterexample:
  "snd (load \<lparr> url = js ''a.m3u8?b'' \<rparr> \<lparr> handle = 1, has_onAbort = True \<rparr> 5 new_loader) =
     (Playlist, [Invoke (Fetch_m3u8 (js ''a.m3u8?b''))])
   \<and> \<not> endsWith (js ''a.m3u8?b'') (js ''.m3u8'')"
  by (simp add: load_def Let_def isPlaylist_def endsWith_def js_def suffix_def)




lemma step_load_pending:
  "(issued s, if isPlaylist c then Playlist else Segment) \<in> set (pending (fst (step (Load c cb now) s)))"
  by (simp add: load_def Let_def)




text \<open>
  Claim C10. \<open>load\<close> changes nothing of the stats but \<open>loading.start\<close>, so it does
  not clear the aborted flag. Once the instance is aborted or destroyed, the flag that
  was set stays set through every later sequence of loads, aborts, destroys and
  settling bridge calls, and none of them calls \<open>onSuccess\<close> or \<open>onError\<close>.
\<close>

theorem cancelled_instance_stays_silent:
  assumes "aborted (stats (loader s)) \<or> destroyed (loader s)"
  shows "(aborted (stats (loader s)) \<longrightarrow> aborted (stats (loader (fst (run s es)))))
       \<and> (destroyed (loader s) \<longrightarrow> destroyed (loader (fst (run s es))))
       \<and> (\<forall>x \<in> set (snd (run s es)). \<not> is_result (snd x))
       \<and> stats (fst (load c cb now (loader s))) = (stats (loader s))\<lparr> loading_start := now \<rparr>"
proof -
  from assms have "cancelled (loader s)" by (auto simp: cancelled_def)
  then have "\<forall>x \<in> set (snd (run s es)). \<not> is_result (snd x)"
    using run_silent by blast
  then show ?thesis
    using run_aborted [of s es] run_destroyed [of s es] load_stats [of c cb now "loader s"]
    by blast
qed

text \<open>
  A new loader that is aborted and then asked to load a playlist: the bridge call is
  issued, and when it is fulfilled nothing is called.
\<close>

theorem cancelled_instance_stays_silent_witness:
  "aborted (stats (loader (fst (step Abort new_sys))))
   \<and> aborted (stats (loader (fst (run (fst (step Abort new_sys))
        [Load ex_playlist ex_callbacks 5, Settle 0 (Reply_m3u8 (Fulfilled (js ''#EXTM3U''))) 9]))))
   \<and> snd (run (fst (step Abort new_sys))
        [Load ex_playlist ex_callbacks 5, Settle 0 (Reply_m3u8 (Fulfilled (js ''#EXTM3U''))) 9])
       = [(Some 0, Invoke (Fetch_m3u8 (js ''live.m3u8'')))]"
proof -
  have h: "aborted (stats (loader (fst (step Abort new_sys))))"
    by (simp add: new_sys_def new_loader_def abort_def Let_def)
  have t: "snd (run (fst (step Abort new_sys))
        [Load ex_playlist ex_callbacks 5, Settle 0 (Reply_m3u8 (Fulfilled (js ''#EXTM3U''))) 9])
       = [(Some 0, Invoke (Fetch_m3u8 (js ''live.m3u8'')))]"
    by (simp add: new_sys_def new_loader_def new_stats_def load_def abort_def Let_def
        isPlaylist_def ex_playlist_def ex_callbacks_def js_def tagged_def
        loadPlaylist_settled_def)
  from h have h': "aborted (stats (loader (fst (step Abort new_sys))))
      \<or> destroyed (loader (fst (step Abort new_sys)))" by simp
  show ?thesis
    using cancelled_instance_stays_silent [OF h', of
        "[Load ex_playlist ex_callbacks 5, Settle 0 (Reply_m3u8 (Fulfilled (js ''#EXTM3U''))) 9]"
        ex_playlist ex_callbacks 5] h t
    by simp
qed

text \<open>
  Claim C9. When the bridge call of a playlist load is fulfilled with the text
  \<open>data\<close> on a loader that is neither destroyed nor aborted, \<open>onSuccess\<close> is called
  once with the response \<open>{url, data}\<close> and the stats, in which \<open>loading.end\<close> is the
  current time, \<open>loaded\<close> and \<open>total\<close> are the length of the text, and \<open>loading.first\<close>
  is the current time only if it was zero before. \<open>loading.end >= loading.start\<close>
  holds because the clock \<open>performance.now()\<close> does not run backwards: the start
  stamped by \<open>load\<close> is not later than the time at which the call settles.
\<close>

theorem playlist_success_response:
  assumes "\<not> destroyed l" and "\<not> aborted (stats l)"
    and "callbacks l = Some cb" and "loader_context l = Some c"
    and "loading_start (stats l) \<le> now"
  shows "loadPlaylist_settled (Fulfilled data) now l =
           (l\<lparr> stats := stamp now (length data) (stats l) \<rparr>,
            [OnSuccess cb \<lparr> response_url = url c, response_data = Text data \<rparr>
               (stamp now (length data) (stats l)) c])
       \<and> loading_start (stamp now (length data) (stats l)) \<le> loading_end (stamp now (length data) (stats l))
       \<and> loading_end (stamp now (length data) (stats l)) = now
       \<and> loaded (stamp now (length data) (stats l)) = length data
       \<and> total (stamp now (length data) (stats l)) = length data
       \<and> loading_first (stamp now (length data) (stats l)) =
           (if loading_first (stats l) = 0 then now else loading_first (stats l))"
  using assms by (simp add: loadPlaylist_settled_def stamp_def Let_def)

text \<open>
  A playlist load started at time 5 whose bridge call is fulfilled at time 9 with a
  text of 7 code units.
\<close>

theorem playlist_success_response_witness:
  "snd (loadPlaylist_settled (Fulfilled (js ''#EXTM3U'')) 9
          (fst (load ex_playlist ex_callbacks 5 new_loader))) =
     [OnSuccess ex_callbacks \<lparr> response_url = js ''live.m3u8'', response_data = Text (js ''#EXTM3U'') \<rparr>
        (new_stats\<lparr> loading_start := 5, loading_first := 9, loading_end := 9, loaded := 7,
           total := 7, parsing_start := 9, parsing_end := 9, buffering_start := 9,
           buffering_first := 9, buffering_end := 9 \<rparr>) ex_playlist]"
proof -
  let ?l = "fst (load ex_playlist ex_callbacks 5 new_loader)"
  have h1: "\<not> destroyed ?l" by (simp add: load_def Let_def new_loader_def)
  have h2: "\<not> aborted (stats ?l)" by (simp add: load_def Let_def new_loader_def new_stats_def)
  have h3: "callbacks ?l = Some ex_callbacks" by (simp add: load_def Let_def)
  have h4: "loader_context ?l = Some ex_playlist" by (simp add: load_def Let_def)
  have h5: "loading_start (stats ?l) \<le> 9" by (simp add: load_def Let_def)
  have st: "stats ?l = new_stats\<lparr> loading_start := 5 \<rparr>" by (simp add: load_def Let_def new_loader_def)
  have n: "length (js ''#EXTM3U'') = 7" by (simp add: js_def)
  have u: "url ex_playlist = js ''live.m3u8''" by (simp add: ex_playlist_def)
  note e = playlist_success_response [OF h1 h2 h3 h4 h5, of "js ''#EXTM3U''", THEN conjunct1]
  show ?thesis
    unfolding e snd_conv st n u by (simp add: stamp_def new_stats_def)
qed

subsection \<open>The clock along a run\<close>

text \<open>
  The start stamped by \<open>load\<close> is never later than a clock value read afterwards, so
  along every run whose clock values do not decrease each \<open>onSuccess\<close> carries stats
  with \<open>loading.end >= loading.start\<close>, for playlists and segments alike.
\<close>

lemma settled_ordered:
  assumes "loading_start (stats l) \<le> now"
  shows "loading_start (stats (fst (loadPlaylist_settled r now l))) \<le> now"
    and "loading_start (stats (fst (loadSegment_settled q now l))) \<le> now"
    and "\<forall>e \<in> set (snd (loadPlaylist_settled r now l)). success_ordered e"
    and "\<forall>e \<in> set (snd (loadSegment_settled q now l)). success_ordered e"
  using assms
  by (auto simp: loadPlaylist_settled_def loadSegment_settled_def stamp_def Let_def
      success_ordered_def split: settled.splits option.splits)

lemma step_clock:
  assumes "loading_start (stats (loader s)) \<le> t" and "clock_ok t (e # es)"
  shows "\<exists>u. loading_start (stats (loader (fst (step e s)))) \<le> u \<and> clock_ok u es
           \<and> (\<forall>x \<in> set (snd (step e s)). success_ordered (snd x))"
proof (cases e)
  case (Load c cb now)
  with assms(2) have "clock_ok now es" by simp
  moreover have "loading_start (stats (fst (load c cb now (loader s)))) \<le> now"
    by (simp add: load_stats)
  moreover have "\<forall>x \<in> set (tagged (Some (issued s)) (snd (snd (load c cb now (loader s))))).
      success_ordered (snd x)"
    by (auto simp: tagged_set load_def Let_def success_ordered_def)
  ultimately show ?thesis using Load by (auto split: prod.splits)
next
  case Abort
  with assms(2) have "clock_ok t es" by simp
  moreover from assms(1) have "loading_start (stats (fst (abort (loader s)))) \<le> t"
    by (simp add: abort_def Let_def split: option.splits)
  moreover have "\<forall>x \<in> set (tagged None (snd (abort (loader s)))). success_ordered (snd x)"
    by (auto simp: tagged_set abort_def Let_def success_ordered_def split: option.splits if_splits)
  ultimately show ?thesis using Abort by (auto split: prod.splits)
next
  case Destroy
  with assms show ?thesis by (auto simp: destroy_def)
next
  case (Settle n r now)
  with assms(2) have c: "clock_ok now es" and "t \<le> now" by simp_all
  with assms(1) have le: "loading_start (stats (loader s)) \<le> now" by simp
  show ?thesis
  proof (cases r)
    case (Reply_m3u8 y)
    with Settle c le settled_ordered(1,3) [OF le, of y] show ?thesis
      by (auto simp: tagged_set split: prod.splits)
  next
    case (Reply_bytes y)
    with Settle c le settled_ordered(2,4) [OF le, of y] show ?thesis
      by (auto simp: tagged_set split: prod.splits)
  qed
qed

lemma run_success_ordered:
  "loading_start (stats (loader s)) \<le> t \<Longrightarrow> clock_ok t es
     \<Longrightarrow> x \<in> set (snd (run s es)) \<Longrightarrow> success_ordered (snd x)"
proof (induction es arbitrary: s t)
  case Nil
  then show ?case by simp
next
  case (Cons e es)
  from step_clock [OF Cons.prems(1,2)] obtain u
    where u: "loading_start (stats (loader (fst (step e s)))) \<le> u" "clock_ok u es"
      and here: "\<forall>x \<in> set (snd (step e s)). success_ordered (snd x)"
    by blast
  from Cons.prems(3) consider "x \<in> set (snd (step e s))"
    | "x \<in> set (snd (run (fst (step e s)) es))"
    by (subst (asm) run_step) auto
  then show ?case
  proof cases
    case 1
    with here show ?thesis by blast
  next
    case 2
    with u show ?thesis by (rule Cons.IH)
  qed
qed

lemma new_loader_success_ordered:
  "clock_ok 0 es \<Longrightarrow> x \<in> set (snd (run new_sys es)) \<Longrightarrow> success_ordered (snd x)"
  by (rule run_success_ordered [of new_sys 0])
    (simp_all add: new_sys_def new_loader_def new_stats_def)

section \<open>Properties of the chat hook\<close>

lemma length_slice_last: "length (slice_last n xs) \<le> n"
  by (simp add: slice_last_def)

lemma set_slice_last: "set (slice_last n xs) \<subseteq> set xs"
  by (simp add: slice_last_def set_drop_subset)


lemma slice_last_drop: "slice_last 200 (xs @ [x]) = drop (Suc (length xs) - 200) (xs @ [x])"
  by (simp add: slice_last_def)

lemma deliver_messages:
  "messages (deliver p m now s) = messages s
   \<or> messages (deliver p m now s) = slice_last 200 (messages s @ [m\<lparr> timestamp := now \<rparr>])"
  by (cases p) (simp_all add: on_chat_message_def on_chat_message_ct_def Let_def)

lemma deliver_ref: "currentChannelRef (deliver p m now s) = currentChannelRef s"
  by (cases p) (simp_all add: on_chat_message_def on_chat_message_ct_def Let_def)

lemma deliver_length:
  "length (messages s) \<le> 200 \<Longrightarrow> length (messages (deliver p m now s)) \<le> 200"
  using deliver_messages [of p m now s] length_slice_last [of 200 "messages s @ [m\<lparr> timestamp := now \<rparr>]"]
  by auto

lemma channel_effect_messages: "messages (fst (channel_effect ch s)) = []"
  by (simp add: channel_effect_def split: option.splits)

lemma channel_effect_ref:
  "currentChannelRef (fst (channel_effect ch s)) = (if ch = Some [] then None else ch)"
  by (simp add: channel_effect_def split: option.splits)

lemma hook_run_step:
  "hook_run p s (e # es) =
     (fst (hook_run p (fst (hook_step p e s)) es),
      snd (hook_step p e s) @ snd (hook_run p (fst (hook_step p e s)) es))"
  by (simp split: prod.splits)

lemma hook_step_chat:
  "chat (fst (hook_step p e s)) =
     (case e of
        Select ch \<Rightarrow> if ch = channel_prop s then chat s else fst (channel_effect ch (chat s))
      | Chat_message m now \<Rightarrow> deliver p m now (chat s)
      | _ \<Rightarrow> chat s)"
  by (cases e) (simp_all split: prod.splits option.splits)

lemma hook_step_length:
  assumes "length (messages (chat s)) \<le> 200"
  shows "length (messages (chat (fst (hook_step p e s)))) \<le> 200"
proof (cases e)
  case (Select ch)
  with assms show ?thesis by (simp add: hook_step_chat channel_effect_messages del: hook_step.simps)
next
  case (Chat_message m now)
  with assms show ?thesis by (simp add: hook_step_chat deliver_length del: hook_step.simps)
next
  case (Chat_disconnected payload)
  with assms show ?thesis by (simp add: hook_step_chat del: hook_step.simps)
next
  case (Delay_elapsed i)
  with assms show ?thesis by (simp add: hook_step_chat del: hook_step.simps)
qed

lemma hook_run_length:
  "length (messages (chat s)) \<le> 200 \<Longrightarrow> length (messages (chat (fst (hook_run p s es)))) \<le> 200"
proof (induction es arbitrary: s)
  case Nil
  then show ?case by simp
next
  case (Cons e es)
  from Cons.prems have "length (messages (chat (fst (hook_step p e s)))) \<le> 200"
    by (rule hook_step_length)
  then have "length (messages (chat (fst (hook_run p (fst (hook_step p e s)) es)))) \<le> 200"
    by (rule Cons.IH)
  then show ?case by (subst hook_run_step) simp
qed

lemma deliver_accepted:
  assumes "accepted p m now s"
  shows "messages (deliver p m now s) = slice_last 200 (messages s @ [m\<lparr> timestamp := now \<rparr>])"
proof (cases p)
  case Identity
  with assms show ?thesis by (simp add: accepted_def on_chat_message_def)
next
  case ContentTime
  with assms show ?thesis by (simp add: accepted_def on_chat_message_ct_def Let_def)
qed

lemma deliver_not_accepted:
  assumes "\<not> accepted p m now s"
  shows "deliver p m now s = s"
proof (cases p)
  case Identity
  with assms show ?thesis by (auto simp: accepted_def on_chat_message_def)
next
  case ContentTime
  with assms show ?thesis by (auto simp: accepted_def on_chat_message_ct_def Let_def)
qed

lemma drop_oldest: "length xs = 200 \<Longrightarrow> slice_last 200 (xs @ [x]) = tl xs @ [x]"
  by (cases xs) (simp_all add: slice_last_def)

text \<open>
  Claim C8. From the initial state of the hook, after any sequence of channel
  selections, message deliveries, disconnect notifications and timers, under either
  suppression policy, the history holds at most 200 messages. An accepted delivery
  stores the history with the new message appended, cut to its last 200 entries; so
  when the history is at its capacity of 200, the accepted message is kept as the
  newest entry and exactly the oldest entry is dropped, without any other effect. An
  event that is not accepted changes nothing.
\<close>

theorem history_bounded:
  "length (messages (chat (fst (hook_run p new_hook evs)))) \<le> 200
   \<and> (accepted p m now s
      \<longrightarrow> messages (deliver p m now s) =
           drop (Suc (length (messages s)) - 200) (messages s @ [m\<lparr> timestamp := now \<rparr>]))
   \<and> (accepted p m now s \<and> length (messages s) = 200
      \<longrightarrow> messages (deliver p m now s) = tl (messages s) @ [m\<lparr> timestamp := now \<rparr>])
   \<and> (\<not> accepted p m now s \<longrightarrow> deliver p m now s = s)"
proof (intro conjI impI)
  have "length (messages (chat new_hook)) \<le> 200" by (simp add: new_hook_def new_chat_def)
  then show "length (messages (chat (fst (hook_run p new_hook evs)))) \<le> 200"
    by (rule hook_run_length)
next
  assume "accepted p m now s"
  then show "messages (deliver p m now s) =
      drop (Suc (length (messages s)) - 200) (messages s @ [m\<lparr> timestamp := now \<rparr>])"
    by (simp add: deliver_accepted slice_last_drop)
next
  assume a: "accepted p m now s \<and> length (messages s) = 200"
  then have "messages (deliver p m now s) = slice_last 200 (messages s @ [m\<lparr> timestamp := now \<rparr>])"
    by (simp add: deliver_accepted)
  also from a have "\<dots> = tl (messages s) @ [m\<lparr> timestamp := now \<rparr>]"
    by (simp add: drop_oldest)
  finally show "messages (deliver p m now s) = tl (messages s) @ [m\<lparr> timestamp := now \<rparr>]" .
next
  assume "\<not> accepted p m now s"
  then show "deliver p m now s = s" by (rule deliver_not_accepted)
qed

text \<open>
  A history at capacity whose oldest entry is by \<open>old\<close>: under either policy a new
  event on the channel is accepted, the history still has 200 entries, the entry by
  \<open>old\<close> is gone and the new event is the last entry. An event of another channel is
  not accepted and changes nothing.
\<close>

theorem history_bounded_witness:
  "accepted Identity (ex_msg ''alpha'' ''eve'' ''yo'' ''id9'') 7 ex_busy
   \<and> accepted ContentTime (ex_msg ''alpha'' ''eve'' ''yo'' ''id9'') 7 ex_busy
   \<and> length (messages ex_busy) = 200
   \<and> messages (deliver Identity (ex_msg ''alpha'' ''eve'' ''yo'' ''id9'') 7 ex_busy)
       = replicate 199 (ex_msg ''alpha'' ''bob'' ''hi'' [])
         @ [(ex_msg ''alpha'' ''eve'' ''yo'' ''id9'')\<lparr> timestamp := 7 \<rparr>]
   \<and> messages (deliver ContentTime (ex_msg ''alpha'' ''eve'' ''yo'' ''id9'') 7 ex_busy)
       = replicate 199 (ex_msg ''alpha'' ''bob'' ''hi'' [])
         @ [(ex_msg ''alpha'' ''eve'' ''yo'' ''id9'')\<lparr> timestamp := 7 \<rparr>]
   \<and> length (messages (deliver Identity (ex_msg ''alpha'' ''eve'' ''yo'' ''id9'') 7 ex_busy)) = 200
   \<and> \<not> accepted Identity (ex_msg ''beta'' ''eve'' ''yo'' ''id9'') 7 ex_busy
   \<and> deliver Identity (ex_msg ''beta'' ''eve'' ''yo'' ''id9'') 7 ex_busy = ex_busy"
proof -
  let ?m = "ex_msg ''alpha'' ''eve'' ''yo'' ''id9''"
  let ?b = "ex_msg ''beta'' ''eve'' ''yo'' ''id9''"
  have len: "length (messages ex_busy) = 200" by (simp add: ex_busy_def)
  have tl: "tl (messages ex_busy) = replicate 199 (ex_msg ''alpha'' ''bob'' ''hi'' [])"
    by (simp add: ex_busy_def)
  have last: "last (messages ex_busy) = ex_msg ''alpha'' ''bob'' ''hi'' []"
    by (simp add: ex_busy_def)
  have ne: "messages ex_busy \<noteq> []" by (simp add: ex_busy_def)
  have a1: "accepted Identity ?m 7 ex_busy"
    by (simp add: accepted_def already_seen_def ex_busy_def ex_msg_def)
  have a2: "accepted ContentTime ?m 7 ex_busy"
    unfolding accepted_def is_repeat_def last
    by (simp add: ex_busy_def ex_msg_def js_def)
  have a3: "\<not> accepted Identity ?b 7 ex_busy"
    by (simp add: accepted_def ex_busy_def ex_msg_def js_def)
  from history_bounded [of Identity "[]" ?m 7 ex_busy] a1 len
  have d1: "messages (deliver Identity ?m 7 ex_busy) = tl (messages ex_busy) @ [?m\<lparr> timestamp := 7 \<rparr>]"
    by blast
  from history_bounded [of ContentTime "[]" ?m 7 ex_busy] a2 len
  have d2: "messages (deliver ContentTime ?m 7 ex_busy) = tl (messages ex_busy) @ [?m\<lparr> timestamp := 7 \<rparr>]"
    by blast
  from history_bounded [of Identity "[]" ?b 7 ex_busy] a3
  have d3: "deliver Identity ?b 7 ex_busy = ex_busy" by blast
  from d1 have l1: "length (messages (deliver Identity ?m 7 ex_busy)) = 200"
    by (simp add: tl)
  from a1 a2 len d1 [unfolded tl] d2 [unfolded tl] l1 a3 d3 show ?thesis by (intro conjI)
qed

lemma list_all_slice_snoc:
  assumes "list_all P xs" and "P x"
  shows "list_all P (slice_last n (xs @ [x]))"
proof -
  from assms have "\<forall>y \<in> set (xs @ [x]). P y" by (simp add: list_all_iff)
  moreover have "set (slice_last n (xs @ [x])) \<subseteq> set (xs @ [x])" by (rule set_slice_last)
  ultimately have "\<forall>y \<in> set (slice_last n (xs @ [x])). P y" by blast
  then show ?thesis by (simp add: list_all_iff)
qed

lemma deliver_on_current:
  assumes "history_on_current s"
  shows "history_on_current (deliver p m now s)"
proof (cases "Some (channel m) = currentChannelRef s")
  case False
  then have "deliver p m now s = s"
    by (cases p) (simp_all add: on_chat_message_def on_chat_message_ct_def)
  with assms show ?thesis by simp
next
  case True
  let ?P = "\<lambda>x. Some (channel x) = currentChannelRef s"
  from assms have old: "list_all ?P (messages s)" by (simp only: history_on_current_def)
  have "channel (m\<lparr> timestamp := now \<rparr>) = channel m" by simp
  with True have new: "?P (m\<lparr> timestamp := now \<rparr>)" by (simp only:)
  from old new have app: "list_all ?P (slice_last 200 (messages s @ [m\<lparr> timestamp := now \<rparr>]))"
    by (rule list_all_slice_snoc)
  from deliver_messages [of p m now s] old app
  have "list_all ?P (messages (deliver p m now s))" by (elim disjE) (simp_all only:)
  then show ?thesis by (simp only: history_on_current_def deliver_ref)
qed

lemma deliver_stale: "Some (channel m) \<noteq> currentChannelRef s \<Longrightarrow> deliver p m now s = s"
  by (cases p) (simp_all add: on_chat_message_def on_chat_message_ct_def)

lemma hook_step_keeps_channel:
  assumes "\<not> is_select e" and "history_on_current (chat s)"
  shows "history_on_current (chat (fst (hook_step p e s)))
       \<and> currentChannelRef (chat (fst (hook_step p e s))) = currentChannelRef (chat s)"
proof (cases e)
  case (Select ch)
  with assms(1) show ?thesis by (simp add: is_select_def)
next
  case (Chat_message m now)
  with assms(2) show ?thesis by (simp add: hook_step_chat deliver_on_current deliver_ref del: hook_step.simps)
next
  case (Chat_disconnected payload)
  with assms(2) show ?thesis by (simp add: hook_step_chat del: hook_step.simps)
next
  case (Delay_elapsed i)
  with assms(2) show ?thesis by (simp add: hook_step_chat del: hook_step.simps)
qed

lemma hook_run_keeps_channel:
  "\<forall>e \<in> set es. \<not> is_select e \<Longrightarrow> history_on_current (chat s) \<Longrightarrow>
     history_on_current (chat (fst (hook_run p s es)))
     \<and> currentChannelRef (chat (fst (hook_run p s es))) = currentChannelRef (chat s)"
proof (induction es arbitrary: s)
  case Nil
  then show ?case by simp
next
  case (Cons e es)
  from Cons.prems have e: "\<not> is_select e" and es: "\<forall>e \<in> set es. \<not> is_select e" by simp_all
  from e Cons.prems(2) have st: "history_on_current (chat (fst (hook_step p e s)))
       \<and> currentChannelRef (chat (fst (hook_step p e s))) = currentChannelRef (chat s)"
    by (rule hook_step_keeps_channel)
  from Cons.IH [OF es conjunct1 [OF st]] st show ?case
    by (subst (1 2) hook_run_step) simp
qed

text \<open>
  Claim C2. When the selected channel changes to \<open>ch\<close> and no other selection follows,
  then after any further events every message in the history carries the channel
  \<open>ch\<close>; so none carries the channel that was left. The listener drops, without any
  change of state, every event whose channel is not the current one when it arrives.
\<close>

theorem stale_channel_not_delivered:
  assumes "ch \<noteq> channel_prop s" and "\<forall>e \<in> set rest. \<not> is_select e"
  shows "(\<forall>m \<in> set (messages (chat (fst (hook_run p s (Select ch # rest))))). Some (channel m) = ch)
       \<and> (Some (channel m0) \<noteq> currentChannelRef c \<longrightarrow> deliver p m0 now c = c)"
proof -
  let ?s1 = "fst (hook_step p (Select ch) s)"
  from assms(1) have c1: "chat ?s1 = fst (channel_effect ch (chat s))"
    by (simp add: hook_step_chat del: hook_step.simps)
  then have ok: "history_on_current (chat ?s1)"
    by (simp add: history_on_current_def channel_effect_messages)
  from c1 have ref: "currentChannelRef (chat ?s1) = (if ch = Some [] then None else ch)"
    by (simp add: channel_effect_ref)
  from hook_run_keeps_channel [OF assms(2) ok, of p]
  have fin: "history_on_current (chat (fst (hook_run p ?s1 rest)))"
    and "currentChannelRef (chat (fst (hook_run p ?s1 rest))) = (if ch = Some [] then None else ch)"
    using ref by simp_all
  then have "\<forall>m \<in> set (messages (chat (fst (hook_run p ?s1 rest)))). Some (channel m) = ch"
    by (auto simp: history_on_current_def list_all_iff split: if_splits)
  then have "\<forall>m \<in> set (messages (chat (fst (hook_run p s (Select ch # rest))))). Some (channel m) = ch"
    by (subst hook_run_step) simp
  moreover have "Some (channel m0) \<noteq> currentChannelRef c \<longrightarrow> deliver p m0 now c = c"
    by (simp add: deliver_stale)
  ultimately show ?thesis by (rule conjI)
qed

lemmas hook_eval =
  new_hook_def new_chat_def channel_effect_def on_chat_message_def on_chat_message_ct_def
  is_repeat_def
  already_seen_def remember_def set_add_def set_delete_def slice_last_def
  on_chat_disconnected_def reconnect_resumed_def ex_msg_def js_def Let_def

text \<open>
  On channel alpha with one message in the history, the selection changes to beta;
  then a late event of alpha and an event of beta arrive. Only the event of beta is
  in the history.
\<close>

theorem stale_channel_not_delivered_witness:
  "Some (js ''beta'') \<noteq> channel_prop (fst (hook_run Identity new_hook
       [Select (Some (js ''alpha'')), Chat_message (ex_msg ''alpha'' ''bob'' ''hi'' ''id1'') 10]))
   \<and> \<not> is_select (Chat_message (ex_msg ''alpha'' ''bob'' ''late'' ''id2'') 20)
   \<and> \<not> is_select (Chat_message (ex_msg ''beta'' ''eve'' ''yo'' ''id3'') 30)
   \<and> messages (chat (fst (hook_run Identity
         (fst (hook_run Identity new_hook
            [Select (Some (js ''alpha'')), Chat_message (ex_msg ''alpha'' ''bob'' ''hi'' ''id1'') 10]))
         [Select (Some (js ''beta'')),
          Chat_message (ex_msg ''alpha'' ''bob'' ''late'' ''id2'') 20,
          Chat_message (ex_msg ''beta'' ''eve'' ''yo'' ''id3'') 30])))
       = [(ex_msg ''beta'' ''eve'' ''yo'' ''id3'')\<lparr> timestamp := 30 \<rparr>]
   \<and> deliver Identity (ex_msg ''alpha'' ''bob'' ''late'' ''id2'') 20
         (chat (fst (hook_run Identity new_hook [Select (Some (js ''beta''))])))
       = chat (fst (hook_run Identity new_hook [Select (Some (js ''beta''))]))"
proof -
  let ?s0 = "fst (hook_run Identity new_hook
       [Select (Some (js ''alpha'')), Chat_message (ex_msg ''alpha'' ''bob'' ''hi'' ''id1'') 10])"
  let ?rest = "[Chat_message (ex_msg ''alpha'' ''bob'' ''late'' ''id2'') 20,
          Chat_message (ex_msg ''beta'' ''eve'' ''yo'' ''id3'') 30]"
  let ?c = "chat (fst (hook_run Identity new_hook [Select (Some (js ''beta''))]))"
  have h1: "Some (js ''beta'') \<noteq> channel_prop ?s0" by (simp add: hook_eval)
  have h2: "\<forall>e \<in> set ?rest. \<not> is_select e" by (simp add: is_select_def)
  have h3: "Some (channel (ex_msg ''alpha'' ''bob'' ''late'' ''id2'')) \<noteq> currentChannelRef ?c"
    by (simp add: hook_eval)
  have m: "messages (chat (fst (hook_run Identity ?s0 (Select (Some (js ''beta'')) # ?rest))))
       = [(ex_msg ''beta'' ''eve'' ''yo'' ''id3'')\<lparr> timestamp := 30 \<rparr>]"
    by (simp add: hook_eval)
  from stale_channel_not_delivered [OF h1 h2, of Identity "ex_msg ''alpha'' ''bob'' ''late'' ''id2''" ?c 20] h3
  have "deliver Identity (ex_msg ''alpha'' ''bob'' ''late'' ''id2'') 20 ?c = ?c" by blast
  with h1 h2 m show ?thesis by (simp add: is_select_def)
qed

text \<open>
  Claim C4 fails on the code. Channel alpha is selected and its chat disconnects;
  during the delay the user selects beta; when the timer fires the suspended listener
  compares the payload with the channel it closed over, which is still alpha, and
  invokes \<open>connect_to_chat\<close> for alpha, although beta is the current channel.
\<close>

theorem reconnect_ignores_switch:
  "hook_run Identity new_hook
     [Select (Some (js ''alpha'')), Chat_disconnected (js ''alpha''),
      Select (Some (js ''beta'')), Delay_elapsed 0]
   = (\<lparr> chat = \<lparr> messages = [], currentChannelRef = Some (js ''beta''), seenIdsRef = [] \<rparr>,
        channel_prop = Some (js ''beta''), waiting = [] \<rparr>,
      [Connect_to_chat (js ''alpha''), Connect_to_chat (js ''beta''),
       Connect_to_chat (js ''alpha'')])"
  by (simp add: hook_eval)

lemma second_check_always_passes:
  "on_chat_disconnected payload ch = Some k \<Longrightarrow> reconnect_resumed k = [Connect_to_chat payload]"
  by (auto simp: on_chat_disconnected_def reconnect_resumed_def split: if_splits)

section \<open>Duplicate suppression\<close>

lemma set_add_new: "i \<notin> set seen \<Longrightarrow> set_add i seen = seen @ [i]"
  by (simp add: set_add_def)

lemma remember_accept:
  assumes "msg_id m = Some i" and "i \<noteq> []" and "i \<notin> set seen" and "seen_ok seen"
  shows "remember m seen = (if length seen = 500 then tl seen @ [i] else seen @ [i])"
proof (cases "length seen = 500")
  case False
  with assms(4) have "length seen < 500" by (simp add: seen_ok_def)
  with assms(1-3) False show ?thesis by (simp add: remember_def set_add_new)
next
  case True
  then obtain f r where fr: "seen = f # r" by (cases seen) auto
  from assms(4) fr have f: "f \<noteq> []" "f \<notin> set r" by (auto simp: seen_ok_def)
  from assms(3) fr have "f \<noteq> i" by auto
  with f have "removeAll f (f # r @ [i]) = r @ [i]" by simp
  with assms(1-3) True fr f show ?thesis
    by (simp add: remember_def set_add_new set_delete_def)
qed


lemma remember_seen_ok:
  assumes "seen_ok seen" and "\<not> already_seen m seen"
  shows "seen_ok (remember m seen)"
proof (cases "msg_id m")
  case None
  with assms(1) show ?thesis by (simp add: remember_def)
next
  case (Some i)
  show ?thesis
  proof (cases "i = []")
    case True
    with Some assms(1) show ?thesis by (simp add: remember_def)
  next
    case False
    with Some assms(2) have new: "i \<notin> set seen" by (simp add: already_seen_def)
    note eq = remember_accept [OF Some False new assms(1)]
    show ?thesis
    proof (cases "length seen = 500")
      case True
      then obtain f r where fr: "seen = f # r" by (cases seen) auto
      with assms(1) new False True eq show ?thesis by (auto simp: seen_ok_def)
    next
      case no: False
      with assms(1) have "length seen < 500" by (simp add: seen_ok_def)
      with assms(1) new False no eq show ?thesis by (auto simp: seen_ok_def)
    qed
  qed
qed

lemma on_chat_message_seen_ok:
  "seen_ok (seenIdsRef s) \<Longrightarrow> seen_ok (seenIdsRef (on_chat_message m now s))"
  by (simp add: on_chat_message_def remember_seen_ok)







lemma deliver_seen_ok:
  "seen_ok (seenIdsRef s) \<Longrightarrow> seen_ok (seenIdsRef (deliver p m now s))"
  by (cases p) (simp_all add: on_chat_message_seen_ok on_chat_message_ct_def Let_def)

lemma hook_step_seen_ok:
  assumes "seen_ok (seenIdsRef (chat s))"
  shows "seen_ok (seenIdsRef (chat (fst (hook_step p e s))))"
proof (cases e)
  case (Select ch)
  have "seenIdsRef (fst (channel_effect ch (chat s))) = []"
    by (simp add: channel_effect_def split: option.splits)
  with Select assms show ?thesis
    by (simp add: hook_step_chat seen_ok_def del: hook_step.simps)
next
  case (Chat_message m now)
  with assms show ?thesis by (simp add: hook_step_chat deliver_seen_ok del: hook_step.simps)
next
  case (Chat_disconnected payload)
  with assms show ?thesis by (simp add: hook_step_chat del: hook_step.simps)
next
  case (Delay_elapsed i)
  with assms show ?thesis by (simp add: hook_step_chat del: hook_step.simps)
qed

lemma hook_run_seen_ok:
  "seen_ok (seenIdsRef (chat s)) \<Longrightarrow> seen_ok (seenIdsRef (chat (fst (hook_run p s es))))"
proof (induction es arbitrary: s)
  case Nil
  then show ?case by simp
next
  case (Cons e es)
  from Cons.prems have "seen_ok (seenIdsRef (chat (fst (hook_step p e s))))"
    by (rule hook_step_seen_ok)
  then have "seen_ok (seenIdsRef (chat (fst (hook_run p (fst (hook_step p e s)) es))))"
    by (rule Cons.IH)
  then show ?case by (subst hook_run_step) simp
qed

lemma reachable_seen_ok: "seen_ok (seenIdsRef (chat (fst (hook_run p new_hook es))))"
  by (rule hook_run_seen_ok) (simp add: new_hook_def new_chat_def seen_ok_def)




section \<open>Properties of the emote tables\<close>

lemma map_of_map_set: "map_of (map_set k v m) = (map_of m)(k \<mapsto> v)"
  by (induction m) (auto simp: fun_eq_iff)

lemma keys_map_set: "fst ` set (map_set k v m) = insert k (fst ` set m)"
proof (induction m)
  case Nil
  show ?case by simp
next
  case (Cons a m)
  obtain k' v' where a: "a = (k', v')" by (cases a)
  show ?case
  proof (cases "k' = k")
    case True
    with a show ?thesis by simp
  next
    case False
    with a Cons.IH show ?thesis by (simp add: insert_commute)
  qed
qed

lemma wf_map_set: "wf_map m \<Longrightarrow> wf_map (map_set k v m)"
proof (induction m)
  case Nil
  then show ?case by (simp add: wf_map_def)
next
  case (Cons a m)
  obtain k' v' where a: "a = (k', v')" by (cases a)
  from Cons.prems a have d: "k' \<notin> fst ` set m" and w: "wf_map m" by (auto simp: wf_map_def)
  from w have ih: "wf_map (map_set k v m)" by (rule Cons.IH)
  show ?case
  proof (cases "k' = k")
    case True
    with a Cons.prems show ?thesis by (simp add: wf_map_def)
  next
    case False
    with d have "k' \<notin> fst ` set (map_set k v m)" by (simp add: keys_map_set)
    with a False ih show ?thesis by (simp add: wf_map_def)
  qed
qed

lemma map_of_fold_set:
  "map_of (fold (\<lambda>(k, v) m. map_set k v m) src dst) = map_of dst ++ map_of (rev src)"
proof (induction src arbitrary: dst)
  case Nil
  show ?case by simp
next
  case (Cons a src)
  obtain k v where a: "a = (k, v)" by (cases a)
  have "map_of (fold (\<lambda>(k, v) m. map_set k v m) (a # src) dst)
      = map_of (map_set k v dst) ++ map_of (rev src)"
    using Cons.IH [of "map_set k v dst"] a by simp
  also have "\<dots> = (map_of dst ++ [k \<mapsto> v]) ++ map_of (rev src)"
    by (simp add: map_of_map_set)
  also have "\<dots> = map_of dst ++ map_of (rev (a # src))"
    using a by (simp add: map_add_assoc)
  finally show ?case .
qed

lemma map_of_rev_distinct: "distinct (map fst m) \<Longrightarrow> map_of (rev m) = map_of m"
proof (induction m)
  case Nil
  show ?case by simp
next
  case (Cons a m)
  obtain k v where a: "a = (k, v)" by (cases a)
  from Cons.prems a have k: "k \<notin> fst ` set m" and d: "distinct (map fst m)" by auto
  from k have "map_of m k = None" by (simp add: map_of_eq_None_iff)
  then have "[k \<mapsto> v] ++ map_of m = (map_of m)(k \<mapsto> v)"
    by (auto simp: fun_eq_iff map_add_def split: option.splits)
  with Cons.IH [OF d] a show ?case by simp
qed

lemma map_get_set_each:
  assumes "wf_map src"
  shows "map_get (set_each src dst) k =
     (case map_get src k of Some v \<Rightarrow> Some v | None \<Rightarrow> map_get dst k)"
proof -
  from assms have "map_of (rev src) = map_of src" by (simp add: wf_map_def map_of_rev_distinct)
  then have "map_of (set_each src dst) = map_of dst ++ map_of src"
    by (simp add: set_each_def map_of_fold_set)
  then show ?thesis by (simp add: map_get_def map_add_def split: option.splits)
qed

lemma wf_fold_set: "wf_map dst \<Longrightarrow> wf_map (fold (\<lambda>(k, v) m. map_set k v m) src dst)"
  by (induction src arbitrary: dst) (auto simp: wf_map_set)

lemma wf_emote_table: "wf_map (emote_table es)"
proof -
  have "wf_map m \<Longrightarrow> wf_map (fold (\<lambda>e m. map_set (emote_name e) (emote_url e) m) es m)" for m
    by (induction es arbitrary: m) (auto simp: wf_map_set)
  then show ?thesis by (simp add: emote_table_def wf_map_def)
qed

lemma wf_twitch_table: "wf_map (twitch_table es)"
proof -
  have "wf_map m \<Longrightarrow> wf_map (fold (\<lambda>e m. if twitch_name e \<noteq> [] \<and> twitch_url e \<noteq> []
                  then map_set (twitch_name e) (twitch_url e) m else m) es m)" for m
    by (induction es arbitrary: m) (auto simp: wf_map_set)
  then show ?thesis by (simp add: twitch_table_def wf_map_def)
qed

lemma loads_keep_wf:
  assumes "tables_wf s"
  shows "tables_wf (loadGlobalEmotes r1 s)" "tables_wf (loadTwitchGlobalEmotes r3 s)"
    "tables_wf (loadGlobalBadges g s)" "tables_wf (loadChannelEmotes r1 r2 r3 s)"
  using assms
  by (auto simp: tables_wf_def loadGlobalEmotes_def loadTwitchGlobalEmotes_def
      loadGlobalBadges_def loadChannelEmotes_def wf_emote_table wf_twitch_table Let_def
      split: settled.splits option.splits badge_reply.splits)

lemma new_emotes_wf: "tables_wf new_emotes"
  by (simp add: tables_wf_def new_emotes_def wf_map_def)

lemma allEmotes_deps: "deps_of s = deps_of s' \<Longrightarrow> allEmotes s = allEmotes s'"
  by (simp add: deps_of_def allEmotes_def)

lemma useMemo_fresh:
  assumes "case prev of None \<Rightarrow> True | Some m \<Rightarrow> \<exists>s0. memo_deps m = deps_of s0 \<and> memo_value m = allEmotes s0"
  shows "memo_deps (useMemo_allEmotes prev s) = deps_of s
       \<and> memo_value (useMemo_allEmotes prev s) = allEmotes s"
proof (cases prev)
  case None
  then show ?thesis by (simp add: useMemo_allEmotes_def)
next
  case (Some m)
  with assms obtain s0 where s0: "memo_deps m = deps_of s0" "memo_value m = allEmotes s0" by auto
  show ?thesis
  proof (cases "memo_deps m = deps_of s")
    case True
    with s0(1) have "deps_of s0 = deps_of s" by (simp only:)
    then have "allEmotes s0 = allEmotes s" by (rule allEmotes_deps)
    with s0(2) have v: "memo_value m = allEmotes s" by (simp only:)
    from Some True have "useMemo_allEmotes prev s = m" by (simp add: useMemo_allEmotes_def)
    with True v show ?thesis by (simp only: simp_thms)
  next
    case False
    with Some show ?thesis by (simp add: useMemo_allEmotes_def)
  qed
qed

lemma renders_fresh:
  assumes "case prev of None \<Rightarrow> True | Some m \<Rightarrow> \<exists>s0. memo_deps m = deps_of s0 \<and> memo_value m = allEmotes s0"
  shows "case renders prev ss of None \<Rightarrow> True
         | Some m \<Rightarrow> \<exists>s0. memo_deps m = deps_of s0 \<and> memo_value m = allEmotes s0"
  using assms
proof (induction ss arbitrary: prev)
  case Nil
  then show ?case by simp
next
  case (Cons s ss)
  from useMemo_fresh [OF Cons.prems, of s]
  have "case Some (useMemo_allEmotes prev s) of None \<Rightarrow> True
         | Some m \<Rightarrow> \<exists>s0. memo_deps m = deps_of s0 \<and> memo_value m = allEmotes s0"
    by auto
  from Cons.IH [OF this] show ?case by simp
qed

text \<open>
  Claim C3. For every token \<open>k\<close>, the merged lookup gives the value of the
  third-party channel table if that defines \<open>k\<close>, else of the Twitch channel
  (subscriber) table, else of the third-party global table, else of the Twitch global
  table. On every render the memoised value is the merge of the tables of that
  render, computed from them as a new map whenever one of them differs from the
  tables of the previous computation; the merge is a function of the four tables and
  changes none of them.
\<close>

theorem merged_lookup_precedence:
  assumes "wf_map (globalEmotes s)" and "wf_map (twitchChannelEmotes s)"
    and "wf_map (channelEmotes s)"
  shows "map_get (allEmotes s) k =
      (case map_get (channelEmotes s) k of
         Some v \<Rightarrow> Some v
       | None \<Rightarrow>
          (case map_get (twitchChannelEmotes s) k of
             Some v \<Rightarrow> Some v
           | None \<Rightarrow>
              (case map_get (globalEmotes s) k of
                 Some v \<Rightarrow> Some v
               | None \<Rightarrow> map_get (twitchGlobalEmotes s) k)))
    \<and> memo_value (useMemo_allEmotes (renders None ss) s) = allEmotes s"
proof
  show "map_get (allEmotes s) k =
      (case map_get (channelEmotes s) k of
         Some v \<Rightarrow> Some v
       | None \<Rightarrow>
          (case map_get (twitchChannelEmotes s) k of
             Some v \<Rightarrow> Some v
           | None \<Rightarrow>
              (case map_get (globalEmotes s) k of
                 Some v \<Rightarrow> Some v
               | None \<Rightarrow> map_get (twitchGlobalEmotes s) k)))"
    unfolding allEmotes_def Let_def
    by (simp only: map_get_set_each [OF assms(3)] map_get_set_each [OF assms(2)]
        map_get_set_each [OF assms(1)])
next
  have "case renders None ss of None \<Rightarrow> True
         | Some m \<Rightarrow> \<exists>s0. memo_deps m = deps_of s0 \<and> memo_value m = allEmotes s0"
    by (rule renders_fresh) simp
  then show "memo_value (useMemo_allEmotes (renders None ss) s) = allEmotes s"
    by (rule useMemo_fresh [THEN conjunct2])
qed

text \<open>
  With \<open>Kappa\<close> defined by the two global tables and the Twitch channel table, the
  Twitch channel table wins; \<open>LUL\<close> comes from the Twitch global table, \<open>Pog\<close> from the
  third-party channel table, and an unknown token is not found.
\<close>

theorem merged_lookup_precedence_witness:
  "wf_map (globalEmotes ex_emotes) \<and> wf_map (twitchChannelEmotes ex_emotes)
   \<and> wf_map (channelEmotes ex_emotes)
   \<and> map_get (allEmotes ex_emotes) (js ''Kappa'') = Some (js ''tc'')
   \<and> map_get (allEmotes ex_emotes) (js ''LUL'') = Some (js ''tg2'')
   \<and> map_get (allEmotes ex_emotes) (js ''Pog'') = Some (js ''c'')
   \<and> map_get (allEmotes ex_emotes) (js ''Nope'') = None
   \<and> memo_value (useMemo_allEmotes (renders None [new_emotes]) ex_emotes) = allEmotes ex_emotes"
proof -
  have h1: "wf_map (globalEmotes ex_emotes)" by (simp add: ex_emotes_def wf_map_def)
  have h2: "wf_map (twitchChannelEmotes ex_emotes)" by (simp add: ex_emotes_def wf_map_def)
  have h3: "wf_map (channelEmotes ex_emotes)" by (simp add: ex_emotes_def wf_map_def)
  note t = merged_lookup_precedence [OF h1 h2 h3]
  have a: "map_get (allEmotes ex_emotes) (js ''Kappa'') = Some (js ''tc'')"
    unfolding t [of "js ''Kappa''" "[]", THEN conjunct1]
    by (simp add: ex_emotes_def map_get_def js_def)
  have b: "map_get (allEmotes ex_emotes) (js ''LUL'') = Some (js ''tg2'')"
    unfolding t [of "js ''LUL''" "[]", THEN conjunct1]
    by (simp add: ex_emotes_def map_get_def js_def)
  have c: "map_get (allEmotes ex_emotes) (js ''Pog'') = Some (js ''c'')"
    unfolding t [of "js ''Pog''" "[]", THEN conjunct1]
    by (simp add: ex_emotes_def map_get_def js_def)
  have d: "map_get (allEmotes ex_emotes) (js ''Nope'') = None"
    unfolding t [of "js ''Nope''" "[]", THEN conjunct1]
    by (simp add: ex_emotes_def map_get_def js_def)
  from h1 h2 h3 a b c d t [of "js ''Kappa''" "[new_emotes]", THEN conjunct2]
  show ?thesis by (intro conjI)
qed

text \<open>
  Claim C6, as amended. The three channel-scoped loads are awaited together. When any
  one of the three calls is rejected, nothing is published: the state stays as it
  was, also the tables whose own call succeeded. When all three are fulfilled with
  replies of the expected shape (an emote list, a badge reply with its user), the
  third-party channel emotes and the channel badges are published, and the subscriber
  emotes too when their reply carries data. The global tables are never touched.
  (What a fulfilled reply of another shape leads to is not part of the statement.)
\<close>

theorem channel_loads_all_or_nothing:
  "loadChannelEmotes (Rejected e) r2 r3 s = s
   \<and> loadChannelEmotes r1 (Rejected e) r3 s = s
   \<and> loadChannelEmotes r1 r2 (Rejected e) s = s
   \<and> channelEmotes (loadChannelEmotes (Fulfilled (Some emoteList)) (Fulfilled (Badges bs))
        (Fulfilled tw) s) = emote_table emoteList
   \<and> channelBadges (loadChannelEmotes (Fulfilled (Some emoteList)) (Fulfilled (Badges bs))
        (Fulfilled tw) s) = bs
   \<and> twitchChannelEmotes (loadChannelEmotes (Fulfilled (Some emoteList)) (Fulfilled (Badges bs))
        (Fulfilled tw) s)
      = (case tw of Some es \<Rightarrow> twitch_table es | None \<Rightarrow> twitchChannelEmotes s)
   \<and> globalEmotes (loadChannelEmotes r1 r2 r3 s) = globalEmotes s
   \<and> twitchGlobalEmotes (loadChannelEmotes r1 r2 r3 s) = twitchGlobalEmotes s
   \<and> globalBadges (loadChannelEmotes r1 r2 r3 s) = globalBadges s"
proof (intro conjI)
  show "loadChannelEmotes (Rejected e) r2 r3 s = s"
    by (simp add: loadChannelEmotes_def)
  show "loadChannelEmotes r1 (Rejected e) r3 s = s"
    by (cases r1) (simp_all add: loadChannelEmotes_def)
  show "loadChannelEmotes r1 r2 (Rejected e) s = s"
    by (cases r1; cases r2) (simp_all add: loadChannelEmotes_def)
  show "channelEmotes (loadChannelEmotes (Fulfilled (Some emoteList)) (Fulfilled (Badges bs))
        (Fulfilled tw) s) = emote_table emoteList"
    by (cases tw) (simp_all add: loadChannelEmotes_def Let_def)
  show "channelBadges (loadChannelEmotes (Fulfilled (Some emoteList)) (Fulfilled (Badges bs))
        (Fulfilled tw) s) = bs"
    by (cases tw) (simp_all add: loadChannelEmotes_def Let_def)
  show "twitchChannelEmotes (loadChannelEmotes (Fulfilled (Some emoteList)) (Fulfilled (Badges bs))
        (Fulfilled tw) s)
      = (case tw of Some es \<Rightarrow> twitch_table es | None \<Rightarrow> twitchChannelEmotes s)"
    by (cases tw) (simp_all add: loadChannelEmotes_def Let_def)
  show "globalEmotes (loadChannelEmotes r1 r2 r3 s) = globalEmotes s"
    by (simp add: loadChannelEmotes_def Let_def
        split: settled.splits option.splits badge_reply.splits)
  show "twitchGlobalEmotes (loadChannelEmotes r1 r2 r3 s) = twitchGlobalEmotes s"
    by (simp add: loadChannelEmotes_def Let_def
        split: settled.splits option.splits badge_reply.splits)
  show "globalBadges (loadChannelEmotes r1 r2 r3 s) = globalBadges s"
    by (simp add: loadChannelEmotes_def Let_def
        split: settled.splits option.splits badge_reply.splits)
qed

text \<open>
  Claim C6 as stated fails: the third-party channel emotes are fetched, the badge
  call is rejected, and the emote table is not published; with the badge call
  fulfilled the same emotes are published.
\<close>

theorem channel_load_not_isolated_counterexample:
  "channelEmotes (loadChannelEmotes (Fulfilled (Some [ex_emote])) (Rejected (js ''503''))
       (Fulfilled (Some [])) new_emotes) = []
   \<and> channelEmotes (loadChannelEmotes (Fulfilled (Some [ex_emote])) (Fulfilled (Badges []))
       (Fulfilled (Some [])) new_emotes) = [(js ''Pog'', js ''c'')]"
  by (simp add: loadChannelEmotes_def new_emotes_def emote_table_def ex_emote_def Let_def)

text \<open>
  The startup loads are separate functions, so a rejected badge call leaves the
  global emotes published. In \<open>loadChannelEmotes\<close> a fulfilled badge reply without
  \<open>user\<close> throws after \<open>setChannelEmotes\<close>: the emote table is published, the badges
  and the subscriber emotes are not.
\<close>

lemma startup_loads_isolated:
  "globalEmotes (loadGlobalBadges (Rejected e) (loadGlobalEmotes (Fulfilled (Some emoteList)) s))
     = emote_table emoteList"
  by (simp add: loadGlobalBadges_def loadGlobalEmotes_def)

lemma badge_reply_without_user:
  "loadChannelEmotes (Fulfilled (Some emoteList)) (Fulfilled No_user) (Fulfilled tw) s
     = s\<lparr> channelEmotes := emote_table emoteList \<rparr>"
  by (simp add: loadChannelEmotes_def Let_def)

lemma emote_reply_null:
  "loadChannelEmotes (Fulfilled None) (Fulfilled b) (Fulfilled tw) s = s"
  by (simp add: loadChannelEmotes_def)

end
